theory Spec2Isabelle
  imports Complex_Main
begin

section \<open>Module constants of \<^verbatim>\<open>strategy_utils.py\<close>\<close>

text \<open>
  Floating-point columns and the running pressure are modelled as exact reals; the
  value NaN, which the code writes into the \<^verbatim>\<open>pressure\<close> column before the walk, is
  \<open>None\<close>. Timestamps are whole seconds since 1970-01-01 00:00, so that
  \<^verbatim>\<open>datetime.timedelta(days=d)\<close> is \<open>d * 86400\<close>.
\<close>

definition MAX_WIND_SPEED :: real where
  "MAX_WIND_SPEED = 5"

definition MAINTENANCE_DURATION :: int where
  "MAINTENANCE_DURATION = 1"

definition VESSEL_COST :: real where
  "VESSEL_COST = 50000"

definition INIT_PRES :: real where
  "INIT_PRES = 2"

definition MIN_PRES :: real where
  "MIN_PRES = 1 / 2"

definition DECLINE_RATE :: real where
  "DECLINE_RATE = 1 / 10000"

definition timedelta_days :: "int \<Rightarrow> int" where
  "timedelta_days d = d * 86400"

section \<open>Calendar fields of a timestamp\<close>

text \<open>
  \<^verbatim>\<open>current_time.month\<close> and \<^verbatim>\<open>current_time.day\<close> in the proleptic Gregorian
  calendar, computed from the day number of the timestamp.
\<close>

definition civil_from_days :: "int \<Rightarrow> int \<times> int \<times> int" where
  "civil_from_days z0 =
     (let z = z0 + 719468;
          era = z div 146097;
          doe = z mod 146097;
          yoe = (doe - doe div 1460 + doe div 36524 - doe div 146096) div 365;
          doy = doe - (365 * yoe + yoe div 4 - yoe div 100);
          mp = (5 * doy + 2) div 153;
          d = doy - (153 * mp + 2) div 5 + 1;
          m = (if mp < 10 then mp + 3 else mp - 9);
          y = yoe + era * 400
      in (if m \<le> 2 then y + 1 else y, m, d))"

definition month_of :: "int \<Rightarrow> int" where
  "month_of t = fst (snd (civil_from_days (t div 86400)))"

definition day_of :: "int \<Rightarrow> int" where
  "day_of t = snd (snd (civil_from_days (t div 86400)))"

section \<open>The data frame\<close>

text \<open>
  One row of \<^verbatim>\<open>wind_df\<close>: the index label \<open>ts\<close> and the columns
  \<^verbatim>\<open>Speed (m/s)\<close>, \<^verbatim>\<open>Power (MW)\<close>, \<^verbatim>\<open>Price (Eur/MWh)\<close>, \<^verbatim>\<open>Revenue (Eur)\<close>,
  \<^verbatim>\<open>pressure\<close> and \<^verbatim>\<open>visit\<close>. The data frame is the list of its rows, in order.
\<close>

record row =
  ts :: int
  speed_ms :: real
  power_mw :: real
  price_eur :: real
  revenue_eur :: real
  pressure :: "real option"
  visit :: int

datatype error = IndexError

text \<open>\<^verbatim>\<open>wind_df.index[-1]\<close> and \<^verbatim>\<open>wind_df.index[0]\<close>: both raise on an empty frame.\<close>

definition index_last :: "row list \<Rightarrow> error + int" where
  "index_last df = (if df = [] then Inl IndexError else Inr (ts (last df)))"

definition index_first :: "row list \<Rightarrow> error + int" where
  "index_first df = (case df of [] \<Rightarrow> Inl IndexError | r # _ \<Rightarrow> Inr (ts r))"

text \<open>
  \<^verbatim>\<open>wind_df.loc[ind, "visit"] = v\<close> and \<^verbatim>\<open>wind_df.loc[ind, "pressure"] = v\<close>:
  a label-based assignment writes every row that carries the label.
\<close>

definition loc_set_visit :: "int \<Rightarrow> int \<Rightarrow> row list \<Rightarrow> row list" where
  "loc_set_visit ind v df = map (\<lambda>r. if ts r = ind then r\<lparr>visit := v\<rparr> else r) df"

definition loc_set_pressure :: "int \<Rightarrow> real \<Rightarrow> row list \<Rightarrow> row list" where
  "loc_set_pressure ind v df = map (\<lambda>r. if ts r = ind then r\<lparr>pressure := Some v\<rparr> else r) df"

text \<open>\<^verbatim>\<open>generate_dataframe\<close>, line 82: revenue per step is power times price.\<close>

definition add_revenue :: "row \<Rightarrow> row" where
  "add_revenue r = r\<lparr>revenue_eur := power_mw r * price_eur r\<rparr>"

section \<open>Strategies\<close>

text \<open>
  The base class holds the visit counter; the two subclasses extend it with their
  parameters. The abstract method \<^verbatim>\<open>fix_pressure\<close> is passed to the simulator as a
  function of the strategy object and the four arguments.
\<close>

record MaintenanceStrategy =
  n_visits :: int

record ScheduledMaintenance = MaintenanceStrategy +
  sm_name :: string
  month :: int
  day :: int

record ConditionMonitoring = MaintenanceStrategy +
  cm_name :: string
  pressure_threshold :: real

text \<open>
  The constructors perform no check on their arguments. Their result is a sum so that a
  rejection could be expressed; the source has no branch that raises.
\<close>

definition ScheduledMaintenance_init :: "int \<Rightarrow> int \<Rightarrow> error + ScheduledMaintenance" where
  "ScheduledMaintenance_init d m =
     Inr \<lparr>n_visits = 0, sm_name = ''Scheduled Maintenance'', month = m, day = d\<rparr>"

definition ConditionMonitoring_init :: "real \<Rightarrow> error + ConditionMonitoring" where
  "ConditionMonitoring_init th =
     Inr \<lparr>n_visits = 0, cm_name = ''Condition Monitoring'', pressure_threshold = th\<rparr>"

definition ScheduledMaintenance_fix_pressure ::
  "'a ScheduledMaintenance_scheme \<Rightarrow> real \<Rightarrow> int \<Rightarrow> real \<Rightarrow> real \<Rightarrow> bool" where
  "ScheduledMaintenance_fix_pressure slf current_pressure current_time current_wind_speed current_price =
     (month_of current_time = month slf \<and> day_of current_time = day slf)"

definition ConditionMonitoring_fix_pressure ::
  "'a ConditionMonitoring_scheme \<Rightarrow> real \<Rightarrow> int \<Rightarrow> real \<Rightarrow> real \<Rightarrow> bool" where
  "ConditionMonitoring_fix_pressure slf current_pressure current_time current_wind_speed current_price =
     (current_pressure \<le> pressure_threshold slf)"

section \<open>The downtime simulator: \<^verbatim>\<open>add_downtimes\<close>\<close>

record 'a sim_state =
  self :: "'a MaintenanceStrategy_scheme"
  wind_df :: "row list"
  current_pressure :: real
  end_visit_ts :: int
  pending_visit :: bool

text \<open>Lines 87 to 90: the end of a visit that starts at label \<open>ind\<close>.\<close>

definition visit_end :: "int \<Rightarrow> row list \<Rightarrow> error + int" where
  "visit_end ind df =
     (case index_last df of
        Inl e \<Rightarrow> Inl e
      | Inr lst \<Rightarrow>
          if ind + timedelta_days MAINTENANCE_DURATION < lst
          then index_first (filter (\<lambda>r. ts r \<ge> ind + timedelta_days MAINTENANCE_DURATION) df)
          else index_last df)"

text \<open>Lines 94 to 103: the part of the loop body that a \<^verbatim>\<open>continue\<close> skips.\<close>

definition end_of_row :: "int \<Rightarrow> 'a sim_state \<Rightarrow> 'a sim_state" where
  "end_of_row ind s =
     (let s2 = (if pending_visit s = True
                then s\<lparr>wind_df := loc_set_visit ind 1 (wind_df s)\<rparr> else s);
          s3 = (if ind = end_visit_ts s2
                then s2\<lparr>current_pressure := INIT_PRES, pending_visit := False\<rparr> else s2)
      in s3\<lparr>wind_df := loc_set_pressure ind (current_pressure s3) (wind_df s3)\<rparr>)"

text \<open>
  Lines 66 to 103: one pass of the loop body for the row \<open>r\<close> that \<^verbatim>\<open>iterrows\<close> yields.
  The \<^verbatim>\<open>verbose\<close> print is left out.
\<close>

definition loop_body ::
  "('a MaintenanceStrategy_scheme \<Rightarrow> real \<Rightarrow> int \<Rightarrow> real \<Rightarrow> real \<Rightarrow> bool) \<Rightarrow>
   row \<Rightarrow> 'a sim_state \<Rightarrow> error + 'a sim_state" where
  "loop_body fix_pressure r s =
     (let s1 = s\<lparr>current_pressure := current_pressure s - DECLINE_RATE\<rparr>;
          ind = ts r;
          send_vessel = fix_pressure (self s1) (current_pressure s1) ind (speed_ms r) (price_eur r)
      in if pending_visit s1 = False \<and> send_vessel then
           if speed_ms r > MAX_WIND_SPEED then Inr s1
           else (case visit_end ind (wind_df s1) of
                   Inl e \<Rightarrow> Inl e
                 | Inr e_ts \<Rightarrow>
                     Inr (end_of_row ind
                       (s1\<lparr>wind_df := loc_set_visit ind 1 (wind_df s1),
                           self := (self s1)\<lparr>n_visits := n_visits (self s1) + 1\<rparr>,
                           end_visit_ts := e_ts,
                           pending_visit := True\<rparr>)))
         else Inr (end_of_row ind s1))"

fun iterrows ::
  "('a MaintenanceStrategy_scheme \<Rightarrow> real \<Rightarrow> int \<Rightarrow> real \<Rightarrow> real \<Rightarrow> bool) \<Rightarrow>
   row list \<Rightarrow> 'a sim_state \<Rightarrow> error + 'a sim_state" where
  "iterrows fix_pressure [] s = Inr s"
| "iterrows fix_pressure (r # rs) s =
     (case loop_body fix_pressure r s of
        Inl e \<Rightarrow> Inl e
      | Inr s' \<Rightarrow> iterrows fix_pressure rs s')"

text \<open>Lines 58 and 59: the two output columns are created or overwritten.\<close>

definition init_columns :: "row list \<Rightarrow> row list" where
  "init_columns df = map (\<lambda>r. r\<lparr>pressure := None, visit := 0\<rparr>) df"

text \<open>Lines 60 to 62: the state before the first row; line 61 raises on an empty frame.\<close>

definition init_state :: "'a MaintenanceStrategy_scheme \<Rightarrow> row list \<Rightarrow> error + 'a sim_state" where
  "init_state slf df =
     (case index_last (init_columns df) of
        Inl e \<Rightarrow> Inl e
      | Inr lst \<Rightarrow>
          Inr \<lparr>self = slf, wind_df = init_columns df, current_pressure = INIT_PRES,
               end_visit_ts = lst + timedelta_days 1, pending_visit = False\<rparr>)"

text \<open>The state after the first \<open>k\<close> rows have been processed.\<close>

definition state_after ::
  "('a MaintenanceStrategy_scheme \<Rightarrow> real \<Rightarrow> int \<Rightarrow> real \<Rightarrow> real \<Rightarrow> bool) \<Rightarrow>
   'a MaintenanceStrategy_scheme \<Rightarrow> row list \<Rightarrow> nat \<Rightarrow> error + 'a sim_state" where
  "state_after fix_pressure slf df k =
     (case init_state slf df of
        Inl e \<Rightarrow> Inl e
      | Inr s0 \<Rightarrow> iterrows fix_pressure (take k (init_columns df)) s0)"

definition add_downtimes ::
  "('a MaintenanceStrategy_scheme \<Rightarrow> real \<Rightarrow> int \<Rightarrow> real \<Rightarrow> real \<Rightarrow> bool) \<Rightarrow>
   'a MaintenanceStrategy_scheme \<Rightarrow> row list \<Rightarrow>
   error + ('a MaintenanceStrategy_scheme \<times> row list)" where
  "add_downtimes fix_pressure slf df =
     (case init_state slf df of
        Inl e \<Rightarrow> Inl e
      | Inr s0 \<Rightarrow>
          (case iterrows fix_pressure (init_columns df) s0 of
             Inl e \<Rightarrow> Inl e
           | Inr s \<Rightarrow> Inr (self s, wind_df s)))"

section \<open>The revenue calculator: \<^verbatim>\<open>calculate_revenue\<close>\<close>

text \<open>A comparison with NaN is false.\<close>

definition pressure_ge :: "real option \<Rightarrow> real \<Rightarrow> bool" where
  "pressure_ge p m = (case p of None \<Rightarrow> False | Some v \<Rightarrow> v \<ge> m)"

definition calculate_revenue :: "'a MaintenanceStrategy_scheme \<Rightarrow> row list \<Rightarrow> real" where
  "calculate_revenue slf df =
     (let cost_visits = of_int (n_visits slf) * VESSEL_COST
      in sum_list (map revenue_eur
           (filter (\<lambda>r. pressure_ge (pressure r) MIN_PRES \<and> visit r = 0) df)) - cost_visits)"

text \<open>
  The revenue rule in the words of the specification: the sum of the revenue per step over
  the positions whose pressure is at least the minimum and whose visit flag is false, less
  the visit count times the vessel cost.
\<close>

definition spec_total_revenue :: "int \<Rightarrow> row list \<Rightarrow> real" where
  "spec_total_revenue visit_count df =
     (\<Sum>i < length df.
        if (case pressure (df ! i) of None \<Rightarrow> False | Some p \<Rightarrow> p \<ge> MIN_PRES) \<and> visit (df ! i) = 0
        then revenue_eur (df ! i) else 0)
     - of_int visit_count * VESSEL_COST"

text \<open>
  The end of a visit in the words of the specification: the first record timestamp that is
  at least the trigger timestamp plus the visit duration, and the last timestamp of the
  series when there is none.
\<close>

definition spec_visit_end :: "int \<Rightarrow> row list \<Rightarrow> int" where
  "spec_visit_end t df =
     (case List.find (\<lambda>x. x \<ge> t + timedelta_days MAINTENANCE_DURATION) (map ts df) of
        Some x \<Rightarrow> x
      | None \<Rightarrow> ts (last df))"

section \<open>Example series\<close>

text \<open>
  Three hourly records with power 1, 2, 3 MW and price 10, 20, 30 Eur/MWh, and a two-record
  series whose first record has a wind speed above the dispatch limit.
\<close>

definition hourly_series :: "row list" where
  "hourly_series = map add_revenue
     [\<lparr>ts = 0, speed_ms = 3, power_mw = 1, price_eur = 10, revenue_eur = 0,
        pressure = None, visit = 0\<rparr>,
      \<lparr>ts = 3600, speed_ms = 4, power_mw = 2, price_eur = 20, revenue_eur = 0,
        pressure = None, visit = 0\<rparr>,
      \<lparr>ts = 7200, speed_ms = 6, power_mw = 3, price_eur = 30, revenue_eur = 0,
        pressure = None, visit = 0\<rparr>]"

definition gusty_series :: "row list" where
  "gusty_series = map add_revenue
     [\<lparr>ts = 0, speed_ms = 6, power_mw = 1, price_eur = 10, revenue_eur = 0,
        pressure = None, visit = 0\<rparr>,
      \<lparr>ts = 3600, speed_ms = 3, power_mw = 2, price_eur = 20, revenue_eur = 0,
        pressure = None, visit = 0\<rparr>]"

text \<open>The condition-monitoring strategy object that \<^verbatim>\<open>ConditionMonitoring(2)\<close> constructs.\<close>

definition monitor_at_2 :: ConditionMonitoring where
  "monitor_at_2 = \<lparr>n_visits = 0, cm_name = ''Condition Monitoring'', pressure_threshold = 2\<rparr>"

section \<open>Basic facts about the walk\<close>

subsection \<open>Label-based assignment\<close>

lemma length_loc_set_visit: "length (loc_set_visit ind v df) = length df"
  by (simp add: loc_set_visit_def)

lemma length_loc_set_pressure: "length (loc_set_pressure ind v df) = length df"
  by (simp add: loc_set_pressure_def)

lemma nth_loc_set_visit:
  "j < length df \<Longrightarrow>
   loc_set_visit ind v df ! j = (if ts (df ! j) = ind then (df ! j)\<lparr>visit := v\<rparr> else df ! j)"
  by (simp add: loc_set_visit_def)

lemma nth_loc_set_pressure:
  "j < length df \<Longrightarrow>
   loc_set_pressure ind v df ! j =
     (if ts (df ! j) = ind then (df ! j)\<lparr>pressure := Some v\<rparr> else df ! j)"
  by (simp add: loc_set_pressure_def)

lemma init_columns_loc_set_visit: "init_columns (loc_set_visit ind v df) = init_columns df"
  by (simp add: init_columns_def loc_set_visit_def)

lemma init_columns_loc_set_pressure: "init_columns (loc_set_pressure ind v df) = init_columns df"
  by (simp add: init_columns_def loc_set_pressure_def)

lemma init_columns_idem: "init_columns (init_columns df) = init_columns df"
  by (simp add: init_columns_def)

lemma length_init_columns: "length (init_columns df) = length df"
  by (simp add: init_columns_def)

lemma map_ts_init_columns: "map ts (init_columns df) = map ts df"
  by (simp add: init_columns_def)

lemma nth_init_columns:
  "j < length df \<Longrightarrow> init_columns df ! j = (df ! j)\<lparr>pressure := None, visit := 0\<rparr>"
  by (simp add: init_columns_def)

lemma map_ts_of_init_columns_eq:
  "init_columns a = init_columns b \<Longrightarrow> map ts a = map ts b"
  by (metis map_ts_init_columns)

subsection \<open>The tail of the loop body\<close>

lemma end_of_row_fields:
  "self (end_of_row ind s) = self s"
  "end_visit_ts (end_of_row ind s) = end_visit_ts s"
  "pending_visit (end_of_row ind s) = (pending_visit s \<and> ind \<noteq> end_visit_ts s)"
  "current_pressure (end_of_row ind s) =
     (if ind = end_visit_ts s then INIT_PRES else current_pressure s)"
  by (simp_all add: end_of_row_def Let_def)

lemma end_of_row_wind_df:
  "wind_df (end_of_row ind s) =
     loc_set_pressure ind (if ind = end_visit_ts s then INIT_PRES else current_pressure s)
       (if pending_visit s then loc_set_visit ind 1 (wind_df s) else wind_df s)"
  by (simp add: end_of_row_def Let_def)

lemma init_columns_end_of_row:
  "init_columns (wind_df (end_of_row ind s)) = init_columns (wind_df s)"
  by (simp add: end_of_row_wind_df init_columns_loc_set_pressure init_columns_loc_set_visit)

subsection \<open>The three ways through the loop body\<close>

lemma loop_body_gate:
  assumes "pending_visit s = False"
    and "fp (self s) (current_pressure s - DECLINE_RATE) (ts r) (speed_ms r) (price_eur r)"
    and "speed_ms r > MAX_WIND_SPEED"
  shows "loop_body fp r s = Inr (s\<lparr>current_pressure := current_pressure s - DECLINE_RATE\<rparr>)"
  using assms by (simp add: loop_body_def Let_def)

lemma loop_body_start:
  assumes "pending_visit s = False"
    and "fp (self s) (current_pressure s - DECLINE_RATE) (ts r) (speed_ms r) (price_eur r)"
    and "\<not> speed_ms r > MAX_WIND_SPEED"
    and "visit_end (ts r) (wind_df s) = Inr e"
  shows "loop_body fp r s =
     Inr (end_of_row (ts r)
       (s\<lparr>current_pressure := current_pressure s - DECLINE_RATE,
          wind_df := loc_set_visit (ts r) 1 (wind_df s),
          self := (self s)\<lparr>n_visits := n_visits (self s) + 1\<rparr>,
          end_visit_ts := e,
          pending_visit := True\<rparr>))"
  using assms by (simp add: loop_body_def Let_def)

lemma loop_body_plain:
  assumes "pending_visit s \<or>
     \<not> fp (self s) (current_pressure s - DECLINE_RATE) (ts r) (speed_ms r) (price_eur r)"
  shows "loop_body fp r s =
     Inr (end_of_row (ts r) (s\<lparr>current_pressure := current_pressure s - DECLINE_RATE\<rparr>))"
  using assms by (auto simp add: loop_body_def Let_def)

lemma loop_body_cases:
  assumes "loop_body fp r s = Inr s'"
  obtains
    (gate) "pending_visit s = False"
      "fp (self s) (current_pressure s - DECLINE_RATE) (ts r) (speed_ms r) (price_eur r)"
      "speed_ms r > MAX_WIND_SPEED"
      "s' = s\<lparr>current_pressure := current_pressure s - DECLINE_RATE\<rparr>"
  | (start) e where "pending_visit s = False"
      "fp (self s) (current_pressure s - DECLINE_RATE) (ts r) (speed_ms r) (price_eur r)"
      "\<not> speed_ms r > MAX_WIND_SPEED"
      "visit_end (ts r) (wind_df s) = Inr e"
      "s' = end_of_row (ts r)
         (s\<lparr>current_pressure := current_pressure s - DECLINE_RATE,
            wind_df := loc_set_visit (ts r) 1 (wind_df s),
            self := (self s)\<lparr>n_visits := n_visits (self s) + 1\<rparr>,
            end_visit_ts := e,
            pending_visit := True\<rparr>)"
  | (plain) "pending_visit s \<or>
       \<not> fp (self s) (current_pressure s - DECLINE_RATE) (ts r) (speed_ms r) (price_eur r)"
      "s' = end_of_row (ts r) (s\<lparr>current_pressure := current_pressure s - DECLINE_RATE\<rparr>)"
proof (cases "pending_visit s \<or>
     \<not> fp (self s) (current_pressure s - DECLINE_RATE) (ts r) (speed_ms r) (price_eur r)")
  case True
  with assms loop_body_plain[of s fp r] show ?thesis using plain by simp
next
  case nt: False
  show ?thesis
  proof (cases "speed_ms r > MAX_WIND_SPEED")
    case True
    with nt assms loop_body_gate[of s fp r] show ?thesis using gate by simp
  next
    case False
    with nt assms obtain e where e: "visit_end (ts r) (wind_df s) = Inr e"
      by (auto simp: loop_body_def Let_def split: sum.splits)
    with nt False assms loop_body_start[of s fp r e] show ?thesis using start by simp
  qed
qed

lemma init_columns_loop_body:
  assumes "loop_body fp r s = Inr s'"
  shows "init_columns (wind_df s') = init_columns (wind_df s)"
  using assms
  by (cases rule: loop_body_cases)
     (simp_all add: init_columns_end_of_row init_columns_loc_set_visit)

lemma map_ts_loop_body:
  "loop_body fp r s = Inr s' \<Longrightarrow> map ts (wind_df s') = map ts (wind_df s)"
  by (rule map_ts_of_init_columns_eq[OF init_columns_loop_body])

lemma length_loop_body:
  "loop_body fp r s = Inr s' \<Longrightarrow> length (wind_df s') = length (wind_df s)"
  by (metis map_ts_loop_body length_map)

lemma loop_body_frame:
  assumes "loop_body fp r s = Inr s'" "j < length (wind_df s)" "ts (wind_df s ! j) \<noteq> ts r"
  shows "wind_df s' ! j = wind_df s ! j"
  using assms
  by (cases rule: loop_body_cases)
     (simp_all add: end_of_row_wind_df nth_loc_set_pressure nth_loc_set_visit
        length_loc_set_visit)

lemma loop_body_visit_mono:
  assumes "loop_body fp r s = Inr s'" "j < length (wind_df s)" "visit (wind_df s ! j) = 1"
  shows "visit (wind_df s' ! j) = 1"
  using assms
  by (cases rule: loop_body_cases)
     (simp_all add: end_of_row_wind_df nth_loc_set_pressure nth_loc_set_visit
        length_loc_set_visit)

subsection \<open>The walk does not raise on a frame with rows\<close>

lemma visit_end_ok:
  assumes "df \<noteq> []"
  shows "\<exists>e. visit_end ind df = Inr e"
proof (cases "ind + timedelta_days MAINTENANCE_DURATION < ts (last df)")
  case True
  have "last df \<in> set df" using assms by simp
  with True have "filter (\<lambda>r. ts r \<ge> ind + timedelta_days MAINTENANCE_DURATION) df \<noteq> []"
    by (auto simp: filter_empty_conv intro!: bexI[of _ "last df"])
  then show ?thesis using assms True
    by (auto simp: visit_end_def index_last_def index_first_def split: list.splits)
next
  case False
  then show ?thesis using assms by (simp add: visit_end_def index_last_def)
qed

lemma loop_body_ok:
  assumes "wind_df s \<noteq> []"
  shows "\<exists>s'. loop_body fp r s = Inr s'"
proof -
  obtain e where "visit_end (ts r) (wind_df s) = Inr e"
    using visit_end_ok[OF assms] by blast
  then show ?thesis by (simp add: loop_body_def Let_def)
qed

lemma iterrows_ok:
  "wind_df s \<noteq> [] \<Longrightarrow> \<exists>s'. iterrows fp rs s = Inr s'"
proof (induction rs arbitrary: s)
  case Nil
  then show ?case by simp
next
  case (Cons r rs)
  obtain s1 where s1: "loop_body fp r s = Inr s1"
    using loop_body_ok[OF Cons.prems] by blast
  from length_loop_body[OF s1] Cons.prems have "wind_df s1 \<noteq> []"
    by (metis length_0_conv)
  from Cons.IH[OF this] s1 show ?case by simp
qed

lemma iterrows_append:
  "iterrows fp (xs @ ys) s =
     (case iterrows fp xs s of Inl e \<Rightarrow> Inl e | Inr s' \<Rightarrow> iterrows fp ys s')"
  by (induction xs arbitrary: s) (auto split: sum.splits)

lemma init_state_ok:
  "df \<noteq> [] \<Longrightarrow>
   init_state slf df =
     Inr \<lparr>self = slf, wind_df = init_columns df, current_pressure = INIT_PRES,
          end_visit_ts = ts (last df) + timedelta_days 1, pending_visit = False\<rparr>"
  by (simp add: init_state_def index_last_def init_columns_def last_map)

lemma add_downtimes_ok:
  assumes "df \<noteq> []"
  shows "\<exists>slf' out. add_downtimes fp slf df = Inr (slf', out)"
proof -
  let ?s0 = "\<lparr>self = slf, wind_df = init_columns df, current_pressure = INIT_PRES,
             end_visit_ts = ts (last df) + timedelta_days 1, pending_visit = False\<rparr>"
  have "wind_df ?s0 \<noteq> []" using assms by (simp add: init_columns_def)
  from iterrows_ok[OF this] obtain s' where "iterrows fp (init_columns df) ?s0 = Inr s'"
    by blast
  then show ?thesis by (simp add: add_downtimes_def init_state_ok[OF assms])
qed

subsection \<open>What a whole walk preserves\<close>

lemma iterrows_init_columns:
  "iterrows fp rs s = Inr s' \<Longrightarrow> init_columns (wind_df s') = init_columns (wind_df s)"
proof (induction rs arbitrary: s)
  case Nil
  then show ?case by simp
next
  case (Cons r rs)
  then obtain s1 where s1: "loop_body fp r s = Inr s1" and rest: "iterrows fp rs s1 = Inr s'"
    by (auto split: sum.splits)
  from Cons.IH[OF rest] init_columns_loop_body[OF s1] show ?case by simp
qed

lemma iterrows_length:
  "iterrows fp rs s = Inr s' \<Longrightarrow> length (wind_df s') = length (wind_df s)"
  by (metis iterrows_init_columns length_init_columns)

lemma iterrows_map_ts:
  "iterrows fp rs s = Inr s' \<Longrightarrow> map ts (wind_df s') = map ts (wind_df s)"
  by (rule map_ts_of_init_columns_eq[OF iterrows_init_columns])

lemma iterrows_frame:
  "iterrows fp rs s = Inr s' \<Longrightarrow> j < length (wind_df s) \<Longrightarrow>
   ts (wind_df s ! j) \<notin> ts ` set rs \<Longrightarrow> wind_df s' ! j = wind_df s ! j"
proof (induction rs arbitrary: s)
  case Nil
  then show ?case by simp
next
  case (Cons r rs)
  then obtain s1 where s1: "loop_body fp r s = Inr s1" and rest: "iterrows fp rs s1 = Inr s'"
    by (auto split: sum.splits)
  from Cons.prems have ne: "ts (wind_df s ! j) \<noteq> ts r" and nin: "ts (wind_df s ! j) \<notin> ts ` set rs"
    by auto
  have same: "wind_df s1 ! j = wind_df s ! j"
    by (rule loop_body_frame[OF s1 Cons.prems(2) ne])
  have len: "j < length (wind_df s1)"
    using length_loop_body[OF s1] Cons.prems(2) by simp
  from Cons.IH[OF rest len] nin same show ?case by simp
qed

lemma iterrows_visit_mono:
  "iterrows fp rs s = Inr s' \<Longrightarrow> j < length (wind_df s) \<Longrightarrow>
   visit (wind_df s ! j) = 1 \<Longrightarrow> visit (wind_df s' ! j) = 1"
proof (induction rs arbitrary: s)
  case Nil
  then show ?case by simp
next
  case (Cons r rs)
  then obtain s1 where s1: "loop_body fp r s = Inr s1" and rest: "iterrows fp rs s1 = Inr s'"
    by (auto split: sum.splits)
  have len: "j < length (wind_df s1)"
    using length_loop_body[OF s1] Cons.prems(2) by simp
  from Cons.IH[OF rest len loop_body_visit_mono[OF s1 Cons.prems(2,3)]] show ?case .
qed

subsection \<open>The state after a prefix of the rows\<close>

lemma state_after_0:
  "df \<noteq> [] \<Longrightarrow>
   state_after fp slf df 0 =
     Inr \<lparr>self = slf, wind_df = init_columns df, current_pressure = INIT_PRES,
          end_visit_ts = ts (last df) + timedelta_days 1, pending_visit = False\<rparr>"
  by (simp add: state_after_def init_state_ok)

lemma state_after_Suc:
  assumes "k < length df"
  shows "state_after fp slf df (Suc k) =
     (case state_after fp slf df k of
        Inl e \<Rightarrow> Inl e
      | Inr s \<Rightarrow> loop_body fp (init_columns df ! k) s)"
proof -
  have "take (Suc k) (init_columns df) = take k (init_columns df) @ [init_columns df ! k]"
    using assms by (simp add: take_Suc_conv_app_nth length_init_columns)
  then show ?thesis
    by (simp add: state_after_def iterrows_append split: sum.splits)
qed

lemma add_downtimes_from:
  assumes "k \<le> length df"
  shows "add_downtimes fp slf df =
     (case state_after fp slf df k of
        Inl e \<Rightarrow> Inl e
      | Inr s \<Rightarrow>
          (case iterrows fp (drop k (init_columns df)) s of
             Inl e \<Rightarrow> Inl e
           | Inr s' \<Rightarrow> Inr (self s', wind_df s')))"
proof -
  have "iterrows fp (init_columns df) s0 =
      (case iterrows fp (take k (init_columns df)) s0 of
         Inl e \<Rightarrow> Inl e | Inr s \<Rightarrow> iterrows fp (drop k (init_columns df)) s)" for s0
    using iterrows_append[of fp "take k (init_columns df)" "drop k (init_columns df)" s0]
    by simp
  then show ?thesis
    by (simp add: add_downtimes_def state_after_def split: sum.splits)
qed

lemma state_after_init_columns:
  assumes "state_after fp slf df k = Inr s"
  shows "init_columns (wind_df s) = init_columns df"
proof -
  from assms obtain s0 where s0: "init_state slf df = Inr s0"
    and it: "iterrows fp (take k (init_columns df)) s0 = Inr s"
    by (auto simp: state_after_def split: sum.splits)
  from s0 have "wind_df s0 = init_columns df"
    by (auto simp: init_state_def split: sum.splits)
  with iterrows_init_columns[OF it] show ?thesis by (simp add: init_columns_idem)
qed

lemma state_after_length:
  "state_after fp slf df k = Inr s \<Longrightarrow> length (wind_df s) = length df"
  by (metis state_after_init_columns length_init_columns)

lemma state_after_map_ts:
  "state_after fp slf df k = Inr s \<Longrightarrow> map ts (wind_df s) = map ts df"
  by (rule map_ts_of_init_columns_eq[OF state_after_init_columns])

lemma state_after_nonempty:
  "state_after fp slf df k = Inr s \<Longrightarrow> df \<noteq> []"
  by (auto simp: state_after_def init_state_def index_last_def init_columns_def
      split: sum.splits if_splits)

lemma state_after_ok:
  assumes "df \<noteq> []"
  shows "\<exists>s. state_after fp slf df k = Inr s"
proof -
  have "wind_df \<lparr>self = slf, wind_df = init_columns df, current_pressure = INIT_PRES,
          end_visit_ts = ts (last df) + timedelta_days 1, pending_visit = False\<rparr> \<noteq> []"
    using assms by (simp add: init_columns_def)
  from iterrows_ok[OF this] show ?thesis
    by (simp add: state_after_def init_state_ok[OF assms])
qed

lemma state_after_step_ok:
  assumes "state_after fp slf df k = Inr s"
  shows "\<exists>s'. loop_body fp r s = Inr s'"
proof -
  have "wind_df s \<noteq> []"
    using state_after_length[OF assms] state_after_nonempty[OF assms] by auto
  then show ?thesis by (rule loop_body_ok)
qed

subsection \<open>Rows of the input as the loop sees them\<close>

lemma init_columns_nth_fields:
  assumes "k < length df"
  shows "ts (init_columns df ! k) = ts (df ! k)"
    and "speed_ms (init_columns df ! k) = speed_ms (df ! k)"
    and "price_eur (init_columns df ! k) = price_eur (df ! k)"
    and "visit (init_columns df ! k) = 0"
    and "pressure (init_columns df ! k) = None"
  using assms by (simp_all add: nth_init_columns)

subsection \<open>With distinct labels, row \<open>k\<close> is written by step \<open>k\<close> only\<close>

lemma distinct_nth_notin_rest:
  assumes "distinct xs" "k < length xs"
  shows "xs ! k \<notin> set (take k xs)" and "xs ! k \<notin> set (drop (Suc k) xs)"
proof -
  have "distinct (take k xs @ xs ! k # drop (Suc k) xs)"
    using assms id_take_nth_drop[OF assms(2)] by simp
  then show "xs ! k \<notin> set (take k xs)" and "xs ! k \<notin> set (drop (Suc k) xs)"
    by auto
qed

lemma row_before_step:
  assumes "k < length df" "distinct (map ts df)" "state_after fp slf df k = Inr s"
  shows "wind_df s ! k = init_columns df ! k"
proof -
  from assms(3) obtain s0 where s0: "init_state slf df = Inr s0"
    and it: "iterrows fp (take k (init_columns df)) s0 = Inr s"
    by (auto simp: state_after_def split: sum.splits)
  from s0 have w0: "wind_df s0 = init_columns df"
    by (auto simp: init_state_def split: sum.splits)
  have "ts (df ! k) \<notin> set (take k (map ts df))"
    using distinct_nth_notin_rest(1)[OF assms(2)] assms(1) by simp
  then have "ts (wind_df s0 ! k) \<notin> ts ` set (take k (init_columns df))"
    using assms(1) by (simp add: w0 init_columns_nth_fields take_map[symmetric] map_ts_init_columns flip: set_map)
  from iterrows_frame[OF it _ this] assms(1) show ?thesis
    by (simp add: w0 length_init_columns)
qed

lemma row_after_step:
  assumes "k < length df" "distinct (map ts df)" "state_after fp slf df (Suc k) = Inr s'"
    and "add_downtimes fp slf df = Inr (slf', out)"
  shows "out ! k = wind_df s' ! k"
proof -
  from assms(1) have le: "Suc k \<le> length df" by simp
  from assms(3,4) add_downtimes_from[OF le, of fp slf] obtain s2 where
    it: "iterrows fp (drop (Suc k) (init_columns df)) s' = Inr s2" and out: "out = wind_df s2"
    by (auto split: sum.splits)
  have tsk: "ts (wind_df s' ! k) = ts (df ! k)"
    using state_after_map_ts[OF assms(3)] assms(1)
    by (metis length_map nth_map)
  have "ts (df ! k) \<notin> set (drop (Suc k) (map ts df))"
    using distinct_nth_notin_rest(2)[OF assms(2)] assms(1) by simp
  then have "ts (wind_df s' ! k) \<notin> ts ` set (drop (Suc k) (init_columns df))"
    by (simp add: tsk drop_map[symmetric] map_ts_init_columns flip: set_map)
  from iterrows_frame[OF it _ this] assms(1) state_after_length[OF assms(3)] out
  show ?thesis by simp
qed

lemma loop_body_counter_needs_trigger:
  assumes "loop_body fp r s = Inr s'" "n_visits (self s') \<noteq> n_visits (self s)"
  shows "pending_visit s = False \<and>
     fp (self s) (current_pressure s - DECLINE_RATE) (ts r) (speed_ms r) (price_eur r) \<and>
     \<not> speed_ms r > MAX_WIND_SPEED"
  using assms by (cases rule: loop_body_cases) (simp_all add: end_of_row_fields)

lemmas prefix_eval =
  state_after_def init_state_def init_columns_def index_last_def index_first_def
  loop_body_def end_of_row_def visit_end_def loc_set_visit_def loc_set_pressure_def
  timedelta_days_def MAINTENANCE_DURATION_def MAX_WIND_SPEED_def INIT_PRES_def
  DECLINE_RATE_def Let_def ConditionMonitoring_fix_pressure_def monitor_at_2_def
  hourly_series_def gusty_series_def add_revenue_def

subsection \<open>The end of a visit on a sorted index\<close>

lemma sorted_le_last:
  "sorted xs \<Longrightarrow> x \<in> set xs \<Longrightarrow> x \<le> last (xs :: int list)"
  by (induction xs) auto

lemma find_map_filter:
  "List.find P (map f xs) =
     (case filter (\<lambda>r. P (f r)) xs of [] \<Rightarrow> None | r # _ \<Rightarrow> Some (f r))"
  by (induction xs) auto

lemma spec_visit_end_cong:
  assumes "map ts a = map ts b"
  shows "spec_visit_end t a = spec_visit_end t b"
proof (cases "a = []")
  case True
  with assms show ?thesis by (simp add: spec_visit_end_def)
next
  case False
  with assms have "b \<noteq> []" by auto
  have "ts (last a) = last (map ts a)" using False by (simp add: last_map)
  also have "\<dots> = ts (last b)" using \<open>b \<noteq> []\<close> assms by (simp add: last_map)
  finally show ?thesis using assms by (simp add: spec_visit_end_def split: option.splits)
qed

lemma visit_end_sorted:
  assumes "sorted (map ts df)" "df \<noteq> []"
  shows "visit_end ind df = Inr (spec_visit_end ind df)"
    and "spec_visit_end ind df \<le> ts (last df)"
    and "spec_visit_end ind df \<in> set (map ts df)"
proof -
  let ?lim = "ind + timedelta_days MAINTENANCE_DURATION"
  let ?late = "filter (\<lambda>r. ts r \<ge> ?lim) df"
  have last_in: "last df \<in> set df" using assms(2) by simp
  have le_last: "ts r \<le> ts (last df)" if "r \<in> set df" for r
    using sorted_le_last[OF assms(1), of "ts r"] that assms(2) by (simp add: last_map)
  have both: "visit_end ind df = Inr (spec_visit_end ind df) \<and>
      spec_visit_end ind df \<le> ts (last df) \<and> spec_visit_end ind df \<in> set (map ts df)"
  proof (cases "?lim < ts (last df)")
    case True
    with last_in have "last df \<in> set ?late" by simp
    then obtain r rs where late: "?late = r # rs" by (cases ?late) auto
    then have "r \<in> set df" by (metis filter_is_subset list.set_intros(1) subsetD)
    with late True assms(2) le_last[of r] show ?thesis
      by (simp add: visit_end_def index_last_def index_first_def spec_visit_end_def
            find_map_filter)
  next
    case False
    show ?thesis
    proof (cases ?late)
      case Nil
      with False assms(2) last_in show ?thesis
        by (simp add: visit_end_def index_last_def spec_visit_end_def find_map_filter)
    next
      case (Cons r rs)
      then have "r \<in> set ?late" by simp
      then have "r \<in> set df" "ts r \<ge> ?lim" by simp_all
      with False le_last[of r] have "ts r = ts (last df)" by simp
      with Cons False assms(2) last_in show ?thesis
        by (simp add: visit_end_def index_last_def spec_visit_end_def find_map_filter)
    qed
  qed
  from both show "visit_end ind df = Inr (spec_visit_end ind df)"
    and "spec_visit_end ind df \<le> ts (last df)"
    and "spec_visit_end ind df \<in> set (map ts df)" by simp_all
qed

lemma spec_visit_end_ge:
  assumes "sorted (map ts df)" "r \<in> set df"
  shows "ts r \<le> spec_visit_end (ts r) df"
proof (cases "List.find (\<lambda>x. x \<ge> ts r + timedelta_days MAINTENANCE_DURATION) (map ts df)")
  case None
  then show ?thesis
    using sorted_le_last[OF assms(1), of "ts r"] assms(2)
    by (cases "df = []") (auto simp: spec_visit_end_def last_map)
next
  case (Some x)
  then have "x \<ge> ts r + timedelta_days MAINTENANCE_DURATION"
    by (auto simp: find_Some_iff)
  with Some show ?thesis
    by (simp add: spec_visit_end_def timedelta_days_def MAINTENANCE_DURATION_def)
qed

lemma state_after_start:
  assumes "k < length df" and "sorted (map ts df)"
    and "state_after fp slf df k = Inr s"
    and "pending_visit s = False"
    and "fp (self s) (current_pressure s - DECLINE_RATE)
           (ts (df ! k)) (speed_ms (df ! k)) (price_eur (df ! k))"
    and "\<not> speed_ms (df ! k) > MAX_WIND_SPEED"
  shows "state_after fp slf df (Suc k) =
     Inr (end_of_row (ts (df ! k))
       (s\<lparr>current_pressure := current_pressure s - DECLINE_RATE,
          wind_df := loc_set_visit (ts (df ! k)) 1 (wind_df s),
          self := (self s)\<lparr>n_visits := n_visits (self s) + 1\<rparr>,
          end_visit_ts := spec_visit_end (ts (df ! k)) df,
          pending_visit := True\<rparr>))"
proof -
  let ?r = "init_columns df ! k"
  have idx: "map ts (wind_df s) = map ts df" by (rule state_after_map_ts[OF assms(3)])
  then have srt: "sorted (map ts (wind_df s))" using assms(2) by simp
  have ne: "wind_df s \<noteq> []" using idx assms(1) by auto
  have "visit_end (ts ?r) (wind_df s) = Inr (spec_visit_end (ts ?r) (wind_df s))"
    by (rule visit_end_sorted(1)[OF srt ne])
  then have e: "visit_end (ts ?r) (wind_df s) = Inr (spec_visit_end (ts (df ! k)) df)"
    using spec_visit_end_cong[OF idx] by (simp add: init_columns_nth_fields[OF assms(1)])
  have "loop_body fp ?r s =
     Inr (end_of_row (ts ?r)
       (s\<lparr>current_pressure := current_pressure s - DECLINE_RATE,
          wind_df := loc_set_visit (ts ?r) 1 (wind_df s),
          self := (self s)\<lparr>n_visits := n_visits (self s) + 1\<rparr>,
          end_visit_ts := spec_visit_end (ts (df ! k)) df,
          pending_visit := True\<rparr>))"
    using assms(4,5,6) e
    by (intro loop_body_start) (simp_all add: init_columns_nth_fields[OF assms(1)])
  then show ?thesis
    by (simp add: state_after_Suc[OF assms(1)] assms(3) init_columns_nth_fields[OF assms(1)])
qed

subsection \<open>A step during a visit\<close>

lemma loop_body_active_pending:
  assumes "loop_body fp r s = Inr s'"
    and "pending_visit s \<or>
      (fp (self s) (current_pressure s - DECLINE_RATE) (ts r) (speed_ms r) (price_eur r) \<and>
       \<not> speed_ms r > MAX_WIND_SPEED)"
  shows "pending_visit s' = (ts r \<noteq> end_visit_ts s')"
  using assms(1)
proof (cases rule: loop_body_cases)
  case gate
  with assms(2) show ?thesis by simp
next
  case (start e)
  then show ?thesis by (simp add: end_of_row_fields)
next
  case plain
  with assms(2) show ?thesis by (auto simp add: end_of_row_fields)
qed

lemma loop_body_active_pressure:
  assumes "loop_body fp r s = Inr s'"
    and "pending_visit s \<or>
      (fp (self s) (current_pressure s - DECLINE_RATE) (ts r) (speed_ms r) (price_eur r) \<and>
       \<not> speed_ms r > MAX_WIND_SPEED)"
  shows "current_pressure s' =
      (if ts r = end_visit_ts s' then INIT_PRES else current_pressure s - DECLINE_RATE)"
  using assms(1)
proof (cases rule: loop_body_cases)
  case gate
  with assms(2) show ?thesis by simp
next
  case (start e)
  then show ?thesis by (simp add: end_of_row_fields)
next
  case plain
  then show ?thesis by (simp add: end_of_row_fields)
qed

lemma loop_body_active_row:
  assumes "loop_body fp r s = Inr s'"
    and "pending_visit s \<or>
      (fp (self s) (current_pressure s - DECLINE_RATE) (ts r) (speed_ms r) (price_eur r) \<and>
       \<not> speed_ms r > MAX_WIND_SPEED)"
    and "j < length (wind_df s)" "ts (wind_df s ! j) = ts r"
  shows "visit (wind_df s' ! j) = 1 \<and> pressure (wind_df s' ! j) = Some (current_pressure s')"
  using assms(1)
proof (cases rule: loop_body_cases)
  case gate
  with assms(2) show ?thesis by simp
next
  case (start e)
  with assms(3,4) show ?thesis
    by (simp add: end_of_row_fields end_of_row_wind_df nth_loc_set_pressure nth_loc_set_visit
        length_loc_set_visit)
next
  case plain
  from assms(2) plain(1) have "pending_visit s" by blast
  with plain(2) assms(3,4) show ?thesis
    by (simp add: end_of_row_fields end_of_row_wind_df nth_loc_set_pressure nth_loc_set_visit
        length_loc_set_visit)
qed

subsection \<open>The rows of a pending visit\<close>

lemma sorted_gt_in_drop:
  assumes "sorted (xs :: int list)" "k < length xs" "x \<in> set xs" "xs ! k < x"
  shows "x \<in> set (drop (Suc k) xs)"
proof -
  from assms(3) obtain m where m: "m < length xs" "xs ! m = x"
    by (auto simp: in_set_conv_nth)
  have "\<not> m \<le> k"
  proof
    assume "m \<le> k"
    with assms(1,2) have "xs ! m \<le> xs ! k" by (simp add: sorted_nth_mono)
    with m(2) assms(4) show False by simp
  qed
  then have "Suc k \<le> m" by simp
  with m have "drop (Suc k) xs ! (m - Suc k) = x" "m - Suc k < length (drop (Suc k) xs)"
    by simp_all
  then show ?thesis by (metis nth_mem)
qed

lemma loop_body_pending_keeps:
  assumes "loop_body fp r s = Inr s'" "pending_visit s"
  shows "end_visit_ts s' = end_visit_ts s" and "self s' = self s"
proof -
  have "s' = end_of_row (ts r) (s\<lparr>current_pressure := current_pressure s - DECLINE_RATE\<rparr>)"
    using assms loop_body_plain[of s fp r] by simp
  then show "end_visit_ts s' = end_visit_ts s" and "self s' = self s"
    by (simp_all add: end_of_row_fields)
qed

lemma pending_phase_marks:
  assumes "iterrows fp rs s = Inr s'" and "pending_visit s"
    and "sorted (map ts rs)" and "end_visit_ts s \<in> set (map ts rs)"
    and "j < length (wind_df s)" and "ts (wind_df s ! j) \<in> set (map ts rs)"
    and "ts (wind_df s ! j) \<le> end_visit_ts s"
  shows "visit (wind_df s' ! j) = 1"
  using assms
proof (induction rs arbitrary: s)
  case Nil
  then show ?case by simp
next
  case (Cons r rs)
  from Cons.prems(1) obtain s1 where s1: "loop_body fp r s = Inr s1"
    and rest: "iterrows fp rs s1 = Inr s'"
    by (auto split: sum.splits)
  have active: "pending_visit s \<or>
      (fp (self s) (current_pressure s - DECLINE_RATE) (ts r) (speed_ms r) (price_eur r) \<and>
       \<not> speed_ms r > MAX_WIND_SPEED)"
    using Cons.prems(2) by simp
  have len1: "j < length (wind_df s1)"
    using length_loop_body[OF s1] Cons.prems(5) by simp
  have end1: "end_visit_ts s1 = end_visit_ts s"
    by (rule loop_body_pending_keeps(1)[OF s1 Cons.prems(2)])
  show ?case
  proof (cases "ts (wind_df s ! j) = ts r")
    case True
    from loop_body_active_row[OF s1 active Cons.prems(5) True]
    have "visit (wind_df s1 ! j) = 1" by simp
    from iterrows_visit_mono[OF rest len1 this] show ?thesis .
  next
    case False
    with Cons.prems(6) have in_rest: "ts (wind_df s ! j) \<in> set (map ts rs)" by simp
    from Cons.prems(3) have le_all: "\<forall>x \<in> set (map ts rs). ts r \<le> x" and srt: "sorted (map ts rs)"
      by simp_all
    from le_all in_rest have ge: "ts r \<le> ts (wind_df s ! j)" by blast
    have not_end: "ts r \<noteq> end_visit_ts s"
      using ge False Cons.prems(7) by simp
    with Cons.prems(4) have end_in: "end_visit_ts s1 \<in> set (map ts rs)"
      by (auto simp: end1)
    have pend1: "pending_visit s1"
      using loop_body_active_pending[OF s1 active] not_end by (simp add: end1)
    have same_ts: "ts (wind_df s1 ! j) = ts (wind_df s ! j)"
      using map_ts_loop_body[OF s1] Cons.prems(5) len1 by (metis nth_map)
    have a: "ts (wind_df s1 ! j) \<in> set (map ts rs)"
      using in_rest same_ts by simp
    have b: "ts (wind_df s1 ! j) \<le> end_visit_ts s1"
      using Cons.prems(7) same_ts end1 by simp
    show ?thesis
      by (rule Cons.IH[OF rest pend1 srt end_in len1 a b])
  qed
qed

subsection \<open>A step without a visit\<close>

lemma loop_body_idle:
  assumes "pending_visit s = False"
    and "\<not> fp (self s) (current_pressure s - DECLINE_RATE) (ts r) (speed_ms r) (price_eur r)"
    and "ts r \<noteq> end_visit_ts s"
  shows "loop_body fp r s =
     Inr (s\<lparr>current_pressure := current_pressure s - DECLINE_RATE,
            wind_df := loc_set_pressure (ts r) (current_pressure s - DECLINE_RATE) (wind_df s)\<rparr>)"
proof -
  have "loop_body fp r s =
      Inr (end_of_row (ts r) (s\<lparr>current_pressure := current_pressure s - DECLINE_RATE\<rparr>))"
    using assms(2) by (intro loop_body_plain) simp
  then show ?thesis using assms(1,3) by (simp add: end_of_row_def Let_def)
qed

lemma idle_step:
  assumes "sorted (map ts df)" and "k < length df"
    and "\<not> fp slf (INIT_PRES - (real k + 1) * DECLINE_RATE)
           (ts (df ! k)) (speed_ms (df ! k)) (price_eur (df ! k))"
    and "state_after fp slf df k = Inr s"
    and "self s = slf" and "pending_visit s = False"
    and "end_visit_ts s = ts (last df) + timedelta_days 1"
    and "current_pressure s = INIT_PRES - real k * DECLINE_RATE"
  shows "state_after fp slf df (Suc k) =
     Inr (s\<lparr>current_pressure := INIT_PRES - (real k + 1) * DECLINE_RATE,
            wind_df := loc_set_pressure (ts (df ! k))
              (INIT_PRES - (real k + 1) * DECLINE_RATE) (wind_df s)\<rparr>)"
proof -
  define r where "r = init_columns df ! k"
  have r: "ts r = ts (df ! k)" "speed_ms r = speed_ms (df ! k)" "price_eur r = price_eur (df ! k)"
    by (simp_all add: r_def init_columns_nth_fields[OF assms(2)])
  have cp: "current_pressure s - DECLINE_RATE = INIT_PRES - (real k + 1) * DECLINE_RATE"
    by (simp add: assms(8) algebra_simps)
  have quiet: "\<not> fp (self s) (current_pressure s - DECLINE_RATE) (ts r) (speed_ms r) (price_eur r)"
    using assms(3) by (simp add: assms(5) cp r)
  have ne: "df \<noteq> []" using assms(2) by auto
  have "ts (df ! k) \<le> ts (last df)"
    using sorted_le_last[OF assms(1), of "ts (df ! k)"] assms(2) ne by (simp add: last_map)
  then have away: "ts r \<noteq> end_visit_ts s"
    by (simp add: r assms(7) timedelta_days_def)
  have "state_after fp slf df (Suc k) = loop_body fp r s"
    by (simp add: state_after_Suc[OF assms(2)] assms(4) r_def)
  with loop_body_idle[of s fp r, OF assms(6) quiet away] show ?thesis
    by (simp add: cp r)
qed

lemma idle_prefix:
  assumes "sorted (map ts df)"
    and "\<forall>k < length df. \<not> fp slf (INIT_PRES - (real k + 1) * DECLINE_RATE)
           (ts (df ! k)) (speed_ms (df ! k)) (price_eur (df ! k))"
    and "df \<noteq> []" and "k \<le> length df"
  shows "\<exists>s. state_after fp slf df k = Inr s \<and>
      self s = slf \<and> pending_visit s = False \<and>
      end_visit_ts s = ts (last df) + timedelta_days 1 \<and>
      current_pressure s = INIT_PRES - real k * DECLINE_RATE"
  using assms(4)
proof (induction k)
  case 0
  show ?case by (simp add: state_after_0[OF assms(3)])
next
  case (Suc k)
  then have k: "k < length df" by simp
  with Suc.IH obtain s where s: "state_after fp slf df k = Inr s"
    and f: "self s = slf" "pending_visit s = False"
      "end_visit_ts s = ts (last df) + timedelta_days 1"
      "current_pressure s = INIT_PRES - real k * DECLINE_RATE"
    by auto
  from assms(2) k have quiet: "\<not> fp slf (INIT_PRES - (real k + 1) * DECLINE_RATE)
           (ts (df ! k)) (speed_ms (df ! k)) (price_eur (df ! k))" by simp
  from idle_step[where fp=fp and slf=slf, OF assms(1) k quiet s f] show ?case
    by (simp add: f algebra_simps)
qed

subsection \<open>The walk reads the input columns only\<close>

lemma add_downtimes_init_columns:
  assumes "add_downtimes fp slf df = Inr (slf', out)"
  shows "init_columns out = init_columns df"
proof -
  from assms obtain s0 s where s0: "init_state slf df = Inr s0"
    and it: "iterrows fp (init_columns df) s0 = Inr s" and out: "out = wind_df s"
    by (auto simp: add_downtimes_def split: sum.splits)
  from s0 have "wind_df s0 = init_columns df"
    by (auto simp: init_state_def split: sum.splits)
  with iterrows_init_columns[OF it] out show ?thesis by (simp add: init_columns_idem)
qed

lemma add_downtimes_cong:
  assumes "init_columns df' = init_columns df"
  shows "add_downtimes fp slf df' = add_downtimes fp slf df"
  unfolding add_downtimes_def init_state_def assms by (rule refl)

lemmas walk_eval =
  add_downtimes_def init_state_def init_columns_def index_last_def index_first_def
  loop_body_def end_of_row_def visit_end_def loc_set_visit_def loc_set_pressure_def
  timedelta_days_def MAINTENANCE_DURATION_def MAX_WIND_SPEED_def INIT_PRES_def
  DECLINE_RATE_def Let_def

lemma sum_list_filter_as_sum:
  "sum_list (map f (filter P xs)) = (\<Sum>i < length xs. if P (xs ! i) then f (xs ! i) else (0::real))"
proof -
  have "sum_list (map f (filter P xs)) = sum_list (map (\<lambda>x. if P x then f x else 0) xs)"
    by (induction xs) simp_all
  also have "\<dots> = (\<Sum>i = 0..<length xs. (map (\<lambda>x. if P x then f x else 0) xs) ! i)"
    by (simp add: sum_list_sum_nth)
  also have "\<dots> = (\<Sum>i < length xs. if P (xs ! i) then f (xs ! i) else 0)"
    by (simp add: atLeast0LessThan)
  finally show ?thesis .
qed

section \<open>The revenue calculator\<close>

text \<open>
  C1. For every annotated series and every strategy object, \<^verbatim>\<open>calculate_revenue\<close> returns
  the sum of the revenue per step over exactly the records whose pressure is at least
  \<open>MIN_PRES\<close> and whose visit flag is 0, less the visit count times \<open>VESSEL_COST\<close>. For the
  three hourly records with power 1, 2, 3 and price 10, 20, 30 and a condition-monitoring
  policy with threshold 0, which never triggers, every record stays productive, the visit
  count is 0 and the revenue is 140.
\<close>

theorem calculate_revenue_spec:
  "calculate_revenue slf df = spec_total_revenue (n_visits slf) df \<and>
   (\<exists>p slf' out.
      ConditionMonitoring_init 0 = Inr p \<and>
      add_downtimes ConditionMonitoring_fix_pressure p hourly_series = Inr (slf', out) \<and>
      list_all (\<lambda>r. pressure_ge (pressure r) MIN_PRES \<and> visit r = 0) out \<and>
      n_visits slf' = 0 \<and>
      calculate_revenue slf' out = 140)"
proof
  show "calculate_revenue slf df = spec_total_revenue (n_visits slf) df"
    unfolding calculate_revenue_def spec_total_revenue_def Let_def sum_list_filter_as_sum
    by (simp add: pressure_ge_def)
next
  show "\<exists>p slf' out.
      ConditionMonitoring_init 0 = Inr p \<and>
      add_downtimes ConditionMonitoring_fix_pressure p hourly_series = Inr (slf', out) \<and>
      list_all (\<lambda>r. pressure_ge (pressure r) MIN_PRES \<and> visit r = 0) out \<and>
      n_visits slf' = 0 \<and>
      calculate_revenue slf' out = 140"
    by (simp add: ConditionMonitoring_init_def ConditionMonitoring_fix_pressure_def
          hourly_series_def add_revenue_def walk_eval calculate_revenue_def pressure_ge_def
          MIN_PRES_def VESSEL_COST_def)
qed

section \<open>The wind gate and the recorded pressure\<close>

text \<open>
  C2. The claim that every processed record gets a recorded pressure does not hold of the
  code: the \<^verbatim>\<open>continue\<close> of the wind gate leaves the loop body before the pressure is
  written. With a condition-monitoring policy of threshold 2 on the two-record series whose
  first record has wind speed 6, the policy triggers at the first record, the gate drops the
  trigger, and the first record keeps the NaN written before the walk; the revenue
  calculator then leaves that record out of the sum.
\<close>

theorem wind_gate_leaves_pressure_unrecorded:
  "\<exists>p slf' out.
     ConditionMonitoring_init 2 = Inr p \<and>
     add_downtimes ConditionMonitoring_fix_pressure p gusty_series = Inr (slf', out) \<and>
     length out = 2 \<and>
     pressure (out ! 0) = None \<and> visit (out ! 0) = 0 \<and>
     pressure (out ! 1) = Some INIT_PRES \<and> visit (out ! 1) = 1 \<and>
     n_visits slf' = 1 \<and>
     calculate_revenue slf' out = - VESSEL_COST"
  by (simp add: ConditionMonitoring_init_def ConditionMonitoring_fix_pressure_def
        gusty_series_def add_revenue_def walk_eval calculate_revenue_def pressure_ge_def
        MIN_PRES_def VESSEL_COST_def)

section \<open>A trigger dropped by the wind gate\<close>

text \<open>
  C3. At a step where no visit is pending, the policy returns true and the wind speed is
  above \<open>MAX_WIND_SPEED\<close>, no visit starts and nothing is kept for later: the state after
  the step is the state before it with only the pressure decremented, so the pending flag
  stays false and the visit count is not incremented, and, the labels being distinct, the
  record's visit flag is 0 in the output. At any later step the visit count changes only
  if the policy returns true at that step.
\<close>

theorem wind_gate_drops_trigger:
  assumes "k < length df" and "distinct (map ts df)"
    and "state_after fp slf df k = Inr s"
    and "pending_visit s = False"
    and "fp (self s) (current_pressure s - DECLINE_RATE)
           (ts (df ! k)) (speed_ms (df ! k)) (price_eur (df ! k))"
    and "speed_ms (df ! k) > MAX_WIND_SPEED"
  shows "\<exists>s' slf' out.
      state_after fp slf df (Suc k) = Inr s' \<and>
      pending_visit s' = False \<and>
      n_visits (self s') = n_visits (self s) \<and>
      s' = s\<lparr>current_pressure := current_pressure s - DECLINE_RATE\<rparr> \<and>
      add_downtimes fp slf df = Inr (slf', out) \<and>
      visit (out ! k) = 0 \<and>
      (\<forall>j s1 s2. k < j \<and> j < length df \<and>
         state_after fp slf df j = Inr s1 \<and> state_after fp slf df (Suc j) = Inr s2 \<and>
         n_visits (self s2) \<noteq> n_visits (self s1) \<longrightarrow>
         fp (self s1) (current_pressure s1 - DECLINE_RATE)
           (ts (df ! j)) (speed_ms (df ! j)) (price_eur (df ! j)))"
proof -
  let ?r = "init_columns df ! k"
  let ?s' = "s\<lparr>current_pressure := current_pressure s - DECLINE_RATE\<rparr>"
  have step: "loop_body fp ?r s = Inr ?s'"
    using assms(4,5,6) by (intro loop_body_gate) (simp_all add: init_columns_nth_fields[OF assms(1)])
  then have after: "state_after fp slf df (Suc k) = Inr ?s'"
    by (simp add: state_after_Suc[OF assms(1)] assms(3))
  have "df \<noteq> []" using assms(1) by auto
  from add_downtimes_ok[OF this] obtain slf' out where
    run: "add_downtimes fp slf df = Inr (slf', out)" by blast
  have "out ! k = wind_df ?s' ! k"
    by (rule row_after_step[OF assms(1,2) after run])
  also have "\<dots> = init_columns df ! k"
    using row_before_step[OF assms(1,2,3)] by simp
  finally have flag: "visit (out ! k) = 0"
    by (simp add: init_columns_nth_fields[OF assms(1)])
  have later: "fp (self s1) (current_pressure s1 - DECLINE_RATE)
           (ts (df ! j)) (speed_ms (df ! j)) (price_eur (df ! j))"
    if "j < length df" "state_after fp slf df j = Inr s1"
      "state_after fp slf df (Suc j) = Inr s2" "n_visits (self s2) \<noteq> n_visits (self s1)"
    for j s1 s2
  proof -
    from that(2,3) have "loop_body fp (init_columns df ! j) s1 = Inr s2"
      by (simp add: state_after_Suc[OF that(1)])
    from loop_body_counter_needs_trigger[OF this that(4)] show ?thesis
      by (simp add: init_columns_nth_fields[OF that(1)])
  qed
  show ?thesis
    using after run flag assms(4) later by auto
qed

theorem wind_gate_drops_trigger_witness:
  "\<exists>s. (0::nat) < length gusty_series \<and> distinct (map ts gusty_series) \<and>
      state_after ConditionMonitoring_fix_pressure monitor_at_2 gusty_series 0 = Inr s \<and>
      pending_visit s = False \<and>
      ConditionMonitoring_fix_pressure (self s) (current_pressure s - DECLINE_RATE)
        (ts (gusty_series ! 0)) (speed_ms (gusty_series ! 0)) (price_eur (gusty_series ! 0)) \<and>
      speed_ms (gusty_series ! 0) > MAX_WIND_SPEED \<and>
      (\<exists>s' slf' out.
         state_after ConditionMonitoring_fix_pressure monitor_at_2 gusty_series (Suc 0) = Inr s' \<and>
         pending_visit s' = False \<and>
         n_visits (self s') = n_visits (self s) \<and>
         add_downtimes ConditionMonitoring_fix_pressure monitor_at_2 gusty_series = Inr (slf', out) \<and>
         visit (out ! 0) = 0)"
proof -
  obtain s where s: "state_after ConditionMonitoring_fix_pressure monitor_at_2 gusty_series 0 = Inr s"
    by (simp add: prefix_eval)
  have h1: "(0::nat) < length gusty_series" by (simp add: gusty_series_def)
  have h2: "distinct (map ts gusty_series)" by (simp add: gusty_series_def add_revenue_def)
  have h4: "pending_visit s = False" using s by (auto simp add: prefix_eval)
  have h5: "ConditionMonitoring_fix_pressure (self s) (current_pressure s - DECLINE_RATE)
        (ts (gusty_series ! 0)) (speed_ms (gusty_series ! 0)) (price_eur (gusty_series ! 0))"
    using s by (auto simp add: prefix_eval)
  have h6: "speed_ms (gusty_series ! 0) > MAX_WIND_SPEED"
    by (simp add: gusty_series_def add_revenue_def MAX_WIND_SPEED_def)
  from wind_gate_drops_trigger[OF h1 h2 s h4 h5 h6] show ?thesis
    using s h1 h2 h4 h5 h6 by blast
qed

section \<open>The end of a visit\<close>

text \<open>
  C4. On a series whose timestamps are in ascending order, a visit that starts at the
  record with timestamp \<open>t\<close> gets as its end timestamp the first record timestamp that is
  at least \<open>t\<close> plus the visit duration, and the last timestamp of the series when there is
  none; the end timestamp is not before \<open>t\<close> and never after the last timestamp.
\<close>

theorem visit_end_first_at_or_after:
  assumes "k < length df" and "sorted (map ts df)"
    and "state_after fp slf df k = Inr s"
    and "pending_visit s = False"
    and "fp (self s) (current_pressure s - DECLINE_RATE)
           (ts (df ! k)) (speed_ms (df ! k)) (price_eur (df ! k))"
    and "\<not> speed_ms (df ! k) > MAX_WIND_SPEED"
  shows "\<exists>s'. state_after fp slf df (Suc k) = Inr s' \<and>
      n_visits (self s') = n_visits (self s) + 1 \<and>
      end_visit_ts s' = spec_visit_end (ts (df ! k)) df \<and>
      ts (df ! k) \<le> end_visit_ts s' \<and>
      end_visit_ts s' \<le> ts (last df)"
proof -
  have ne: "df \<noteq> []" using assms(1) by auto
  have "df ! k \<in> set df" using assms(1) by simp
  from spec_visit_end_ge[OF assms(2) this] visit_end_sorted(2)[OF assms(2) ne]
    state_after_start[OF assms]
  show ?thesis by (simp add: end_of_row_fields)
qed

theorem visit_end_first_at_or_after_witness:
  "\<exists>s. (0::nat) < length hourly_series \<and> sorted (map ts hourly_series) \<and>
      state_after ConditionMonitoring_fix_pressure monitor_at_2 hourly_series 0 = Inr s \<and>
      pending_visit s = False \<and>
      ConditionMonitoring_fix_pressure (self s) (current_pressure s - DECLINE_RATE)
        (ts (hourly_series ! 0)) (speed_ms (hourly_series ! 0)) (price_eur (hourly_series ! 0)) \<and>
      \<not> speed_ms (hourly_series ! 0) > MAX_WIND_SPEED \<and>
      (\<exists>s'. state_after ConditionMonitoring_fix_pressure monitor_at_2 hourly_series (Suc 0) = Inr s' \<and>
         n_visits (self s') = n_visits (self s) + 1 \<and>
         end_visit_ts s' = spec_visit_end (ts (hourly_series ! 0)) hourly_series \<and>
         ts (hourly_series ! 0) \<le> end_visit_ts s' \<and>
         end_visit_ts s' \<le> ts (last hourly_series))"
proof -
  obtain s where s: "state_after ConditionMonitoring_fix_pressure monitor_at_2 hourly_series 0 = Inr s"
    by (simp add: prefix_eval)
  have h1: "(0::nat) < length hourly_series" by (simp add: hourly_series_def)
  have h2: "sorted (map ts hourly_series)" by (simp add: hourly_series_def add_revenue_def)
  have h4: "pending_visit s = False" using s by (auto simp add: prefix_eval)
  have h5: "ConditionMonitoring_fix_pressure (self s) (current_pressure s - DECLINE_RATE)
        (ts (hourly_series ! 0)) (speed_ms (hourly_series ! 0)) (price_eur (hourly_series ! 0))"
    using s by (auto simp add: prefix_eval)
  have h6: "\<not> speed_ms (hourly_series ! 0) > MAX_WIND_SPEED"
    by (simp add: hourly_series_def add_revenue_def MAX_WIND_SPEED_def)
  from visit_end_first_at_or_after[OF h1 h2 s h4 h5 h6] show ?thesis
    using s h1 h2 h4 h5 h6 by blast
qed

section \<open>The reset at the end of a visit\<close>

text \<open>
  C5. At a step during a visit (one that was pending before the step, or one that the step
  itself starts) whose record timestamp equals the end timestamp of the visit, the running
  pressure is reset to \<open>INIT_PRES\<close> and the pending flag is cleared; the labels being
  distinct, that record has visit flag 1 in the output and its recorded pressure is the
  value after the reset, \<open>INIT_PRES\<close>, not the decayed value.
\<close>

theorem visit_end_row_records_reset_pressure:
  assumes "k < length df" and "distinct (map ts df)"
    and "state_after fp slf df k = Inr s"
    and "pending_visit s \<or>
      (fp (self s) (current_pressure s - DECLINE_RATE)
         (ts (df ! k)) (speed_ms (df ! k)) (price_eur (df ! k)) \<and>
       \<not> speed_ms (df ! k) > MAX_WIND_SPEED)"
    and "state_after fp slf df (Suc k) = Inr s'"
    and "ts (df ! k) = end_visit_ts s'"
    and "add_downtimes fp slf df = Inr (slf', out)"
  shows "current_pressure s' = INIT_PRES \<and> pending_visit s' = False \<and>
      visit (out ! k) = 1 \<and> pressure (out ! k) = Some INIT_PRES"
proof -
  define r where "r = init_columns df ! k"
  have r: "ts r = ts (df ! k)" "speed_ms r = speed_ms (df ! k)" "price_eur r = price_eur (df ! k)"
    by (simp_all add: r_def init_columns_nth_fields[OF assms(1)])
  have step: "loop_body fp r s = Inr s'"
    using assms(3,5) by (simp add: r_def state_after_Suc[OF assms(1)])
  have active: "pending_visit s \<or>
      (fp (self s) (current_pressure s - DECLINE_RATE) (ts r) (speed_ms r) (price_eur r) \<and>
       \<not> speed_ms r > MAX_WIND_SPEED)"
    using assms(4) by (simp only: r)
  have len: "k < length (wind_df s)" using state_after_length[OF assms(3)] assms(1) by simp
  have lab: "ts (wind_df s ! k) = ts r"
    using row_before_step[OF assms(1,2,3)] by (simp add: r_def)
  have at_end: "ts r = end_visit_ts s'" using assms(6) by (simp only: r)
  from loop_body_active_pending[OF step active] at_end have p: "pending_visit s' = False"
    by simp
  from loop_body_active_pressure[OF step active] at_end have c: "current_pressure s' = INIT_PRES"
    by simp
  from loop_body_active_row[OF step active len lab] c
  have "visit (wind_df s' ! k) = 1 \<and> pressure (wind_df s' ! k) = Some INIT_PRES"
    by simp
  with row_after_step[OF assms(1,2,5,7)] p c show ?thesis by simp
qed

theorem visit_end_row_records_reset_pressure_witness:
  "\<exists>s s' slf' out. (2::nat) < length hourly_series \<and> distinct (map ts hourly_series) \<and>
      state_after ConditionMonitoring_fix_pressure monitor_at_2 hourly_series 2 = Inr s \<and>
      pending_visit s \<and>
      state_after ConditionMonitoring_fix_pressure monitor_at_2 hourly_series (Suc 2) = Inr s' \<and>
      ts (hourly_series ! 2) = end_visit_ts s' \<and>
      add_downtimes ConditionMonitoring_fix_pressure monitor_at_2 hourly_series = Inr (slf', out) \<and>
      current_pressure s - DECLINE_RATE \<noteq> INIT_PRES \<and>
      current_pressure s' = INIT_PRES \<and> pending_visit s' = False \<and>
      visit (out ! 2) = 1 \<and> pressure (out ! 2) = Some INIT_PRES"
proof -
  obtain s where s: "state_after ConditionMonitoring_fix_pressure monitor_at_2 hourly_series 2 = Inr s"
    by (simp add: prefix_eval)
  obtain s' where s': "state_after ConditionMonitoring_fix_pressure monitor_at_2 hourly_series (Suc 2) = Inr s'"
    by (simp add: prefix_eval)
  obtain slf' out where run:
    "add_downtimes ConditionMonitoring_fix_pressure monitor_at_2 hourly_series = Inr (slf', out)"
    by (simp add: walk_eval ConditionMonitoring_fix_pressure_def monitor_at_2_def hourly_series_def add_revenue_def)
  have h1: "(2::nat) < length hourly_series" by (simp add: hourly_series_def)
  have h2: "distinct (map ts hourly_series)" by (simp add: hourly_series_def add_revenue_def)
  have h4: "pending_visit s" using s by (auto simp add: prefix_eval)
  have h4': "pending_visit s \<or>
      (ConditionMonitoring_fix_pressure (self s) (current_pressure s - DECLINE_RATE)
         (ts (hourly_series ! 2)) (speed_ms (hourly_series ! 2)) (price_eur (hourly_series ! 2)) \<and>
       \<not> speed_ms (hourly_series ! 2) > MAX_WIND_SPEED)"
    using h4 by simp
  have h6: "ts (hourly_series ! 2) = end_visit_ts s'"
    using s' by (auto simp add: prefix_eval)
  have h7: "current_pressure s - DECLINE_RATE \<noteq> INIT_PRES"
    using s by (auto simp add: prefix_eval)
  from visit_end_row_records_reset_pressure[OF h1 h2 s h4' s' h6 run] show ?thesis
    using s s' run h1 h2 h4 h6 h7 by blast
qed

section \<open>The visit flag over the interval of a visit\<close>

text \<open>
  C6. On a series whose timestamps are in ascending order, when a visit starts at the record
  with timestamp \<open>t\<close> and gets the end timestamp \<open>e\<close>, every record whose timestamp lies
  in the closed interval from \<open>t\<close> to \<open>e\<close> has visit flag 1 in the output, the triggering
  record and the end record included.
\<close>

theorem visit_flag_covers_interval:
  assumes "k < length df" and "sorted (map ts df)"
    and "state_after fp slf df k = Inr s"
    and "pending_visit s = False"
    and "fp (self s) (current_pressure s - DECLINE_RATE)
           (ts (df ! k)) (speed_ms (df ! k)) (price_eur (df ! k))"
    and "\<not> speed_ms (df ! k) > MAX_WIND_SPEED"
    and "add_downtimes fp slf df = Inr (slf', out)"
  shows "\<exists>s'. state_after fp slf df (Suc k) = Inr s' \<and>
      n_visits (self s') = n_visits (self s) + 1 \<and>
      (\<forall>j < length df.
         ts (df ! k) \<le> ts (df ! j) \<and> ts (df ! j) \<le> end_visit_ts s' \<longrightarrow> visit (out ! j) = 1)"
proof -
  define r where "r = init_columns df ! k"
  define t where "t = ts (df ! k)"
  define e where "e = spec_visit_end t df"
  have r: "ts r = t" "speed_ms r = speed_ms (df ! k)" "price_eur r = price_eur (df ! k)"
    by (simp_all add: r_def t_def init_columns_nth_fields[OF assms(1)])
  have ne: "df \<noteq> []" using assms(1) by auto
  obtain s' where after: "state_after fp slf df (Suc k) = Inr s'"
    using state_after_ok[OF ne] by blast
  have s'_eq: "s' = end_of_row t
       (s\<lparr>current_pressure := current_pressure s - DECLINE_RATE,
          wind_df := loc_set_visit t 1 (wind_df s),
          self := (self s)\<lparr>n_visits := n_visits (self s) + 1\<rparr>,
          end_visit_ts := e,
          pending_visit := True\<rparr>)"
    using state_after_start[OF assms(1-6)] after by (simp add: t_def e_def)
  have end': "end_visit_ts s' = e" and cnt: "n_visits (self s') = n_visits (self s) + 1"
    and pend': "pending_visit s' = (t \<noteq> e)"
    by (simp_all add: s'_eq end_of_row_fields)
  have step: "loop_body fp r s = Inr s'"
    using assms(3) after by (simp add: r_def state_after_Suc[OF assms(1)])
  have active: "pending_visit s \<or>
      (fp (self s) (current_pressure s - DECLINE_RATE) (ts r) (speed_ms r) (price_eur r) \<and>
       \<not> speed_ms r > MAX_WIND_SPEED)"
    using assms(5,6) by (simp add: r t_def)
  have le: "Suc k \<le> length df" using assms(1) by simp
  from assms(7) after add_downtimes_from[OF le, of fp slf] obtain s2 where
    rest: "iterrows fp (drop (Suc k) (init_columns df)) s' = Inr s2" and out: "out = wind_df s2"
    by (auto split: sum.splits)
  have len: "length (wind_df s) = length df" by (rule state_after_length[OF assms(3)])
  have len': "length (wind_df s') = length df" by (rule state_after_length[OF after])
  have lab: "ts (wind_df s ! j) = ts (df ! j)" if "j < length df" for j
    using state_after_map_ts[OF assms(3)] that by (metis length_map nth_map)
  have lab': "ts (wind_df s' ! j) = ts (df ! j)" if "j < length df" for j
    using state_after_map_ts[OF after] that by (metis length_map nth_map)
  have e_in: "e \<in> set (map ts df)"
    unfolding e_def by (rule visit_end_sorted(3)[OF assms(2) ne])
  have rows: "map ts (drop (Suc k) (init_columns df)) = drop (Suc k) (map ts df)"
    by (simp only: drop_map[symmetric] map_ts_init_columns)
  have covered: "visit (out ! j) = 1"
    if j: "j < length df" and lo: "t \<le> ts (df ! j)" and hi: "ts (df ! j) \<le> e" for j
  proof (cases "ts (df ! j) = t")
    case True
    have "visit (wind_df s' ! j) = 1"
      using loop_body_active_row[OF step active, of j] j len lab[OF j] True by (simp add: r)
    from iterrows_visit_mono[OF rest _ this] j len' out show ?thesis by simp
  next
    case False
    with lo have gt: "t < ts (df ! j)" by simp
    with hi have "t \<noteq> e" by simp
    with pend' have pend: "pending_visit s'" by simp
    have tk: "map ts df ! k = t" using assms(1) by (simp add: t_def)
    have "ts (df ! j) \<in> set (map ts df)" using j by simp
    from sorted_gt_in_drop[OF assms(2) _ this] gt tk assms(1)
    have j_in: "ts (df ! j) \<in> set (drop (Suc k) (map ts df))" by simp
    have "t < e" using gt hi by simp
    from sorted_gt_in_drop[OF assms(2) _ e_in] this tk assms(1)
    have e_in_rest: "e \<in> set (drop (Suc k) (map ts df))" by simp
    have srt: "sorted (map ts (drop (Suc k) (init_columns df)))"
      unfolding rows using assms(2) by (rule sorted_wrt_drop)
    have "visit (wind_df s2 ! j) = 1"
    proof (rule pending_phase_marks[OF rest pend srt])
      show "end_visit_ts s' \<in> set (map ts (drop (Suc k) (init_columns df)))"
        unfolding rows end' by (rule e_in_rest)
      show "j < length (wind_df s')" using j len' by simp
      show "ts (wind_df s' ! j) \<in> set (map ts (drop (Suc k) (init_columns df)))"
        unfolding rows lab'[OF j] by (rule j_in)
      show "ts (wind_df s' ! j) \<le> end_visit_ts s'"
        unfolding lab'[OF j] end' by (rule hi)
    qed
    then show ?thesis by (simp add: out)
  qed
  show ?thesis
    using after cnt covered by (auto simp: end' t_def)
qed

theorem visit_flag_covers_interval_witness:
  "\<exists>s slf' out. (0::nat) < length hourly_series \<and> sorted (map ts hourly_series) \<and>
      state_after ConditionMonitoring_fix_pressure monitor_at_2 hourly_series 0 = Inr s \<and>
      pending_visit s = False \<and>
      ConditionMonitoring_fix_pressure (self s) (current_pressure s - DECLINE_RATE)
        (ts (hourly_series ! 0)) (speed_ms (hourly_series ! 0)) (price_eur (hourly_series ! 0)) \<and>
      \<not> speed_ms (hourly_series ! 0) > MAX_WIND_SPEED \<and>
      add_downtimes ConditionMonitoring_fix_pressure monitor_at_2 hourly_series = Inr (slf', out) \<and>
      (\<exists>s'. state_after ConditionMonitoring_fix_pressure monitor_at_2 hourly_series (Suc 0) = Inr s' \<and>
         n_visits (self s') = n_visits (self s) + 1 \<and>
         (\<forall>j < length hourly_series.
            ts (hourly_series ! 0) \<le> ts (hourly_series ! j) \<and>
            ts (hourly_series ! j) \<le> end_visit_ts s' \<longrightarrow> visit (out ! j) = 1))"
proof -
  obtain s where s: "state_after ConditionMonitoring_fix_pressure monitor_at_2 hourly_series 0 = Inr s"
    by (simp add: prefix_eval)
  obtain slf' out where run:
    "add_downtimes ConditionMonitoring_fix_pressure monitor_at_2 hourly_series = Inr (slf', out)"
    by (simp add: walk_eval ConditionMonitoring_fix_pressure_def monitor_at_2_def
          hourly_series_def add_revenue_def)
  have h1: "(0::nat) < length hourly_series" by (simp add: hourly_series_def)
  have h2: "sorted (map ts hourly_series)" by (simp add: hourly_series_def add_revenue_def)
  have h4: "pending_visit s = False" using s by (auto simp add: prefix_eval)
  have h5: "ConditionMonitoring_fix_pressure (self s) (current_pressure s - DECLINE_RATE)
        (ts (hourly_series ! 0)) (speed_ms (hourly_series ! 0)) (price_eur (hourly_series ! 0))"
    using s by (auto simp add: prefix_eval)
  have h6: "\<not> speed_ms (hourly_series ! 0) > MAX_WIND_SPEED"
    by (simp add: hourly_series_def add_revenue_def MAX_WIND_SPEED_def)
  from visit_flag_covers_interval[OF h1 h2 s h4 h5 h6 run] show ?thesis
    using s run h1 h2 h4 h5 h6 by blast
qed

section \<open>One visit at a time\<close>

text \<open>
  C7. While a visit is pending, a step starts no new visit: the strategy object, and so
  the visit count, is unchanged, no new end timestamp is computed, and the pending flag is
  cleared exactly when the record's timestamp is the end timestamp of the active visit.
\<close>

theorem no_new_visit_while_pending:
  assumes "k < length df"
    and "state_after fp slf df k = Inr s"
    and "pending_visit s"
  shows "\<exists>s'. state_after fp slf df (Suc k) = Inr s' \<and>
      self s' = self s \<and>
      n_visits (self s') = n_visits (self s) \<and>
      end_visit_ts s' = end_visit_ts s \<and>
      (pending_visit s' \<longleftrightarrow> ts (df ! k) \<noteq> end_visit_ts s)"
proof -
  let ?r = "init_columns df ! k"
  have "loop_body fp ?r s =
      Inr (end_of_row (ts ?r) (s\<lparr>current_pressure := current_pressure s - DECLINE_RATE\<rparr>))"
    using assms(3) by (intro loop_body_plain) simp
  then show ?thesis
    using assms(3)
    by (simp add: state_after_Suc[OF assms(1)] assms(2) end_of_row_fields
          init_columns_nth_fields[OF assms(1)])
qed

theorem no_new_visit_while_pending_witness:
  "\<exists>s. (1::nat) < length hourly_series \<and>
      state_after ConditionMonitoring_fix_pressure monitor_at_2 hourly_series 1 = Inr s \<and>
      pending_visit s \<and>
      (\<exists>s'. state_after ConditionMonitoring_fix_pressure monitor_at_2 hourly_series (Suc 1) = Inr s' \<and>
         self s' = self s \<and>
         n_visits (self s') = n_visits (self s) \<and>
         end_visit_ts s' = end_visit_ts s \<and>
         (pending_visit s' \<longleftrightarrow> ts (hourly_series ! 1) \<noteq> end_visit_ts s))"
proof -
  obtain s where s: "state_after ConditionMonitoring_fix_pressure monitor_at_2 hourly_series 1 = Inr s"
    by (simp add: prefix_eval)
  have h1: "(1::nat) < length hourly_series" by (simp add: hourly_series_def)
  have h3: "pending_visit s" using s by (auto simp add: prefix_eval)
  from no_new_visit_while_pending[OF h1 s h3] show ?thesis
    using s h1 h3 by blast
qed

section \<open>Construction of the policies\<close>

text \<open>
  C8, as claimed: construction with an out-of-range day or month, or with a non-positive
  threshold, fails. The constructors reject nothing: day 32 of month 13 and the threshold
  -1 are accepted.
\<close>

theorem construction_unchecked_counterexample:
  "\<not> isl (ScheduledMaintenance_init 32 13) \<and> \<not> isl (ConditionMonitoring_init (- 1))"
  by (simp add: ScheduledMaintenance_init_def ConditionMonitoring_init_def)

text \<open>
  C8, amended. Construction of either policy succeeds for every day, month and threshold
  and stores the parameters as given, with visit count 0; the decision of the scheduled
  policy is true exactly when the month and the day of the timestamp equal the stored
  values, that of the condition-monitoring policy exactly when the pressure is at most the
  stored threshold; and the walk of a series with at least one record returns a result with
  either policy.
\<close>

theorem construction_accepts_every_parameter:
  "(\<exists>p. ScheduledMaintenance_init d m = Inr p \<and> day p = d \<and> month p = m \<and> n_visits p = 0
        \<and> (ScheduledMaintenance_fix_pressure p cp t w c \<longleftrightarrow> month_of t = m \<and> day_of t = d)
        \<and> (df \<noteq> [] \<longrightarrow> (\<exists>res. add_downtimes ScheduledMaintenance_fix_pressure p df = Inr res))) \<and>
   (\<exists>q. ConditionMonitoring_init th = Inr q \<and> pressure_threshold q = th \<and> n_visits q = 0
        \<and> (ConditionMonitoring_fix_pressure q cp t w c \<longleftrightarrow> cp \<le> th)
        \<and> (df \<noteq> [] \<longrightarrow> (\<exists>res. add_downtimes ConditionMonitoring_fix_pressure q df = Inr res)))"
proof -
  show ?thesis
    by (simp add: add_downtimes_ok ScheduledMaintenance_init_def ConditionMonitoring_init_def
        ScheduledMaintenance_fix_pressure_def ConditionMonitoring_fix_pressure_def)
qed

theorem construction_accepts_every_parameter_witness:
  "(\<exists>p. ScheduledMaintenance_init 32 13 = Inr p \<and> day p = 32 \<and> month p = 13 \<and> n_visits p = 0
        \<and> (ScheduledMaintenance_fix_pressure p 2 0 3 10 \<longleftrightarrow> month_of 0 = 13 \<and> day_of 0 = 32)
        \<and> gusty_series \<noteq> [] \<and> (\<exists>res. add_downtimes ScheduledMaintenance_fix_pressure p gusty_series = Inr res)) \<and>
   (\<exists>q. ConditionMonitoring_init (- 1) = Inr q \<and> pressure_threshold q = - 1 \<and> n_visits q = 0
        \<and> (ConditionMonitoring_fix_pressure q 2 0 3 10 \<longleftrightarrow> (2::real) \<le> - 1)
        \<and> gusty_series \<noteq> [] \<and> (\<exists>res. add_downtimes ConditionMonitoring_fix_pressure q gusty_series = Inr res))"
proof -
  have ne: "gusty_series \<noteq> []" by (simp add: gusty_series_def)
  show ?thesis
    using construction_accepts_every_parameter[of 32 13 2 0 3 10 gusty_series "- 1"] ne
    by auto
qed

section \<open>Determinism\<close>

text \<open>
  C9. Two runs of the simulator with the same policy, in the same state, on series that
  agree in their timestamps and input columns return the same annotated output and the same
  visit count. This covers a second run on the frame that the first run has annotated in
  place, since the walk overwrites the \<^verbatim>\<open>pressure\<close> and \<^verbatim>\<open>visit\<close> columns before it reads
  anything.
\<close>

theorem add_downtimes_deterministic:
  assumes "add_downtimes fp slf df = Inr (slf1, out1)"
    and "init_columns df' = init_columns df"
  shows "add_downtimes fp slf df' = Inr (slf1, out1) \<and>
         add_downtimes fp slf out1 = Inr (slf1, out1)"
proof
  show "add_downtimes fp slf df' = Inr (slf1, out1)"
    using add_downtimes_cong[where fp=fp and slf=slf, OF assms(2)] assms(1) by simp
next
  have "init_columns out1 = init_columns df"
    by (rule add_downtimes_init_columns[OF assms(1)])
  from add_downtimes_cong[where fp=fp and slf=slf, OF this] assms(1)
  show "add_downtimes fp slf out1 = Inr (slf1, out1)" by simp
qed

theorem add_downtimes_deterministic_witness:
  "\<exists>slf1 out1.
     add_downtimes ConditionMonitoring_fix_pressure monitor_at_2 hourly_series = Inr (slf1, out1) \<and>
     init_columns (map (\<lambda>r. r\<lparr>visit := 7, pressure := Some 1\<rparr>) hourly_series)
       = init_columns hourly_series \<and>
     map (\<lambda>r. r\<lparr>visit := 7, pressure := Some 1\<rparr>) hourly_series \<noteq> hourly_series \<and>
     n_visits slf1 = 1 \<and> map visit out1 = [1, 1, 1] \<and>
     add_downtimes ConditionMonitoring_fix_pressure monitor_at_2
       (map (\<lambda>r. r\<lparr>visit := 7, pressure := Some 1\<rparr>) hourly_series) = Inr (slf1, out1) \<and>
     add_downtimes ConditionMonitoring_fix_pressure monitor_at_2 out1 = Inr (slf1, out1)"
proof -
  obtain slf1 out1 where run:
    "add_downtimes ConditionMonitoring_fix_pressure monitor_at_2 hourly_series = Inr (slf1, out1)"
    by (simp add: walk_eval ConditionMonitoring_fix_pressure_def monitor_at_2_def
          hourly_series_def add_revenue_def)
  have same: "init_columns (map (\<lambda>r. r\<lparr>visit := 7, pressure := Some 1\<rparr>) hourly_series)
       = init_columns hourly_series"
    by (simp add: init_columns_def)
  have differ: "map (\<lambda>r. r\<lparr>visit := 7, pressure := Some 1\<rparr>) hourly_series \<noteq> hourly_series"
    by (simp add: hourly_series_def add_revenue_def)
  have res: "n_visits slf1 = 1 \<and> map visit out1 = [1, 1, 1]"
    using run
    by (auto simp add: walk_eval ConditionMonitoring_fix_pressure_def monitor_at_2_def
          hourly_series_def add_revenue_def)
  from add_downtimes_deterministic[OF run same] show ?thesis
    using run same differ res by (intro exI[of _ slf1] exI[of _ out1]) simp
qed

text \<open>
  The visit counter lives in the strategy object and is set to 0 by the constructor only:
  a second run with the object that the first run returned, instead of a newly constructed
  one, starts from the accumulated count.
\<close>

lemma reused_strategy_object_accumulates:
  "\<exists>slf1 out1 slf2.
     add_downtimes ConditionMonitoring_fix_pressure monitor_at_2 hourly_series = Inr (slf1, out1) \<and>
     add_downtimes ConditionMonitoring_fix_pressure slf1 out1 = Inr (slf2, out1) \<and>
     n_visits slf1 = 1 \<and> n_visits slf2 = 2"
  by (simp add: walk_eval ConditionMonitoring_fix_pressure_def monitor_at_2_def
        hourly_series_def add_revenue_def)

section \<open>A policy that never triggers\<close>

text \<open>
  C10. For a series with at least one record and strictly increasing timestamps, and a
  policy whose decision is false at every step of the walk, the walk returns the strategy
  object unchanged, so the visit count keeps the value 0 it has after construction; every
  record has visit flag 0, and the record at position \<open>k\<close>, counted from 0, has the recorded
  pressure \<open>INIT_PRES - (k + 1) * DECLINE_RATE\<close>. No step resets the pressure: after \<open>k\<close>
  steps the running pressure is \<open>INIT_PRES - k * DECLINE_RATE\<close>, no visit is pending, and
  the end timestamp is still the initial one, one day after the last timestamp of the
  series.
\<close>

theorem idle_policy_only_decays:
  assumes "df \<noteq> []" and "sorted_wrt (<) (map ts df)"
    and "\<forall>k < length df. \<not> fp slf (INIT_PRES - (real k + 1) * DECLINE_RATE)
           (ts (df ! k)) (speed_ms (df ! k)) (price_eur (df ! k))"
  shows "\<exists>out. add_downtimes fp slf df = Inr (slf, out) \<and> length out = length df \<and>
      (\<forall>k < length df.
         visit (out ! k) = 0 \<and>
         pressure (out ! k) = Some (INIT_PRES - (real k + 1) * DECLINE_RATE)) \<and>
      (\<forall>k \<le> length df. \<exists>s.
         state_after fp slf df k = Inr s \<and> pending_visit s = False \<and>
         end_visit_ts s = ts (last df) + timedelta_days 1 \<and>
         ts (last df) < end_visit_ts s \<and>
         current_pressure s = INIT_PRES - real k * DECLINE_RATE)"
proof -
  have srt: "sorted (map ts df)" and dist: "distinct (map ts df)"
    using assms(2) by (simp_all add: strict_sorted_iff)
  obtain slf' out where run: "add_downtimes fp slf df = Inr (slf', out)"
    using add_downtimes_ok[OF assms(1)] by blast
  from idle_prefix[where fp=fp and slf=slf and k="length df", OF srt assms(3,1)] obtain sn where
    sn: "state_after fp slf df (length df) = Inr sn" and sn_self: "self sn = slf"
    by auto
  from run sn add_downtimes_from[of "length df" df fp slf]
  have res: "slf' = self sn" "out = wind_df sn" by (simp_all add: length_init_columns)
  have len: "length out = length df"
    using state_after_length[OF sn] res by simp
  have rows: "visit (out ! k) = 0 \<and>
      pressure (out ! k) = Some (INIT_PRES - (real k + 1) * DECLINE_RATE)"
    if k: "k < length df" for k
  proof -
    from idle_prefix[where fp=fp and slf=slf and k=k, OF srt assms(3,1)] k obtain s where
      s: "state_after fp slf df k = Inr s"
      and f: "self s = slf" "pending_visit s = False"
        "end_visit_ts s = ts (last df) + timedelta_days 1"
        "current_pressure s = INIT_PRES - real k * DECLINE_RATE"
      by auto
    from assms(3) k have quiet: "\<not> fp slf (INIT_PRES - (real k + 1) * DECLINE_RATE)
           (ts (df ! k)) (speed_ms (df ! k)) (price_eur (df ! k))" by simp
    note nxt = idle_step[where fp=fp and slf=slf, OF srt k quiet s f]
    have before: "wind_df s ! k = init_columns df ! k"
      by (rule row_before_step[OF k dist s])
    have klen: "k < length (wind_df s)" using state_after_length[OF s] k by simp
    have "out ! k = loc_set_pressure (ts (df ! k))
        (INIT_PRES - (real k + 1) * DECLINE_RATE) (wind_df s) ! k"
      using row_after_step[OF k dist nxt run] by simp
    then show ?thesis
      using klen k by (simp add: nth_loc_set_pressure before nth_init_columns)
  qed
  have states: "\<exists>s. state_after fp slf df k = Inr s \<and> pending_visit s = False \<and>
         end_visit_ts s = ts (last df) + timedelta_days 1 \<and>
         ts (last df) < end_visit_ts s \<and>
         current_pressure s = INIT_PRES - real k * DECLINE_RATE"
    if "k \<le> length df" for k
    using idle_prefix[where fp=fp and slf=slf, OF srt assms(3,1) that] by (auto simp: timedelta_days_def)
  show ?thesis
    using run res sn_self len rows states by auto
qed

theorem idle_policy_only_decays_witness:
  "hourly_series \<noteq> [] \<and> sorted_wrt (<) (map ts hourly_series) \<and>
   \<not> ConditionMonitoring_fix_pressure (monitor_at_2\<lparr>pressure_threshold := 0\<rparr>)
       (INIT_PRES - (real 0 + 1) * DECLINE_RATE)
       (ts (hourly_series ! 0)) (speed_ms (hourly_series ! 0)) (price_eur (hourly_series ! 0)) \<and>
   \<not> ConditionMonitoring_fix_pressure (monitor_at_2\<lparr>pressure_threshold := 0\<rparr>)
       (INIT_PRES - (real 1 + 1) * DECLINE_RATE)
       (ts (hourly_series ! 1)) (speed_ms (hourly_series ! 1)) (price_eur (hourly_series ! 1)) \<and>
   \<not> ConditionMonitoring_fix_pressure (monitor_at_2\<lparr>pressure_threshold := 0\<rparr>)
       (INIT_PRES - (real 2 + 1) * DECLINE_RATE)
       (ts (hourly_series ! 2)) (speed_ms (hourly_series ! 2)) (price_eur (hourly_series ! 2)) \<and>
   (\<exists>out. add_downtimes ConditionMonitoring_fix_pressure
             (monitor_at_2\<lparr>pressure_threshold := 0\<rparr>) hourly_series
           = Inr (monitor_at_2\<lparr>pressure_threshold := 0\<rparr>, out) \<and>
      length out = 3 \<and>
      visit (out ! 0) = 0 \<and> pressure (out ! 0) = Some (INIT_PRES - 1 * DECLINE_RATE) \<and>
      visit (out ! 1) = 0 \<and> pressure (out ! 1) = Some (INIT_PRES - 2 * DECLINE_RATE) \<and>
      visit (out ! 2) = 0 \<and> pressure (out ! 2) = Some (INIT_PRES - 3 * DECLINE_RATE))"
proof -
  let ?fp = "ConditionMonitoring_fix_pressure :: ConditionMonitoring \<Rightarrow> _"
  let ?p = "monitor_at_2\<lparr>pressure_threshold := 0\<rparr>"
  have h1: "hourly_series \<noteq> []" by (simp add: hourly_series_def)
  have h2: "sorted_wrt (<) (map ts hourly_series)"
    by (simp add: hourly_series_def add_revenue_def)
  have len: "length hourly_series = 3" by (simp add: hourly_series_def)
  have quiet: "\<not> ?fp ?p (INIT_PRES - (real k + 1) * DECLINE_RATE)
          (ts (hourly_series ! k)) (speed_ms (hourly_series ! k)) (price_eur (hourly_series ! k))"
    if "k < 3" for k
  proof -
    from that have "(real k + 1) * DECLINE_RATE < INIT_PRES"
      by (simp add: DECLINE_RATE_def INIT_PRES_def)
    then show ?thesis by (simp add: ConditionMonitoring_fix_pressure_def)
  qed
  then have h3: "\<forall>k < length hourly_series.
      \<not> ?fp ?p (INIT_PRES - (real k + 1) * DECLINE_RATE)
          (ts (hourly_series ! k)) (speed_ms (hourly_series ! k)) (price_eur (hourly_series ! k))"
    by (simp add: len)
  from idle_policy_only_decays[where fp="?fp" and slf="?p", OF h1 h2 h3]
  obtain out where run: "add_downtimes ?fp ?p hourly_series = Inr (?p, out)"
    and lo: "length out = length hourly_series"
    and rows: "\<forall>k < length hourly_series.
         visit (out ! k) = 0 \<and>
         pressure (out ! k) = Some (INIT_PRES - (real k + 1) * DECLINE_RATE)"
    by blast
  from rows[rule_format, of 0] rows[rule_format, of 1] rows[rule_format, of 2]
  have r: "visit (out ! 0) = 0 \<and> pressure (out ! 0) = Some (INIT_PRES - 1 * DECLINE_RATE)"
    "visit (out ! 1) = 0 \<and> pressure (out ! 1) = Some (INIT_PRES - 2 * DECLINE_RATE)"
    "visit (out ! 2) = 0 \<and> pressure (out ! 2) = Some (INIT_PRES - 3 * DECLINE_RATE)"
    by (simp_all add: len)
  show ?thesis
    using h1 h2 quiet[of 0] quiet[of 1] quiet[of 2] run lo r by (simp add: len)
qed

end
